theory Spec2Isabelle
  imports Complex_Main
begin

section \<open>Numbers and exceptions\<close>

text \<open>
  The engine computes on Python floats. They are modelled as real numbers: rounding,
  infinities and NaN are outside the model. An exception that an operation raises is a
  value of type \<open>error\<close>. \<open>math.exp\<close> and \<open>**\<close> raise OverflowError when
  their result is beyond the largest float, \<open>DBL_MAX\<close>; they underflow to 0 silently.
\<close>

datatype error =
    ValueError
  | AssertionError
  | ZeroDivisionError
  | TypeError
  | IndexError
  | OverflowError
  | ComplexResult

definition DBL_MAX :: real where
  "DBL_MAX = (2 - 1 / 2 ^ 52) * 2 ^ 1023"

definition float_result :: "real \<Rightarrow> error + real" where
  "float_result r = (if \<bar>r\<bar> > DBL_MAX then Inl OverflowError else Inr r)"

text \<open>
  \<open>x ** y\<close> on floats: anything to the power 0 is 1; a zero base with a negative
  exponent raises; a negative base with a non-integral exponent gives a complex number,
  which \<open>float()\<close> rejects and which the real-valued model cannot hold; a result
  out of range raises.
\<close>

definition py_pow :: "real \<Rightarrow> real \<Rightarrow> error + real" where
  "py_pow x y =
     (if y = 0 then Inr 1
      else if x = 0 then (if y < 0 then Inl ZeroDivisionError else Inr 0)
      else if y = of_int \<lfloor>y\<rfloor> then float_result (x powi \<lfloor>y\<rfloor>)
      else if x < 0 then Inl ComplexResult
      else float_result (x powr y))"

definition py_exp :: "real \<Rightarrow> error + real" where
  "py_exp x = float_result (exp x)"

definition py_div :: "real \<Rightarrow> real \<Rightarrow> error + real" where
  "py_div x y = (if y = 0 then Inl ZeroDivisionError else Inr (x / y))"

definition py_sqrt :: "real \<Rightarrow> error + real" where
  "py_sqrt x = (if x < 0 then Inl ValueError else Inr (sqrt x))"

definition EPS :: real where
  "EPS = 1 / 10 ^ 12"

section \<open>engine.py: the Value class\<close>

text \<open>
  Objects live in a store, a list of nodes; the identity of an object is its index.
  \<open>prev\<close> is the set \<open>_prev\<close> in the order in which Python iterates over it, a
  list without duplicates. \<open>backward_fn\<close> is the closure \<open>_backward\<close>: a tag
  for the operation with what the closure captured, operand objects by identity and floats
  by value. The closure's \<open>out\<close> is the node that holds it. The fields \<open>_op\<close> and
  \<open>label\<close> are diagnostic only and are left out.
\<close>

datatype closure =
    Leaf
  | AddBw nat nat
  | NegBw nat
  | MulBw nat nat
  | PowBw nat real
  | ExpBw nat real
  | LogBw nat real
  | TanhBw nat real
  | ReluBw nat

record Value =
  data :: real
  grad :: real
  prev :: "nat list"
  backward_fn :: closure

type_synonym store = "Value list"

text \<open>An operand of an operator is a Value or a plain number.\<close>

datatype arg = Node nat | Num real

text \<open>
  \<open>set(_children)\<close>: the order in which a set is iterated is fixed by the
  interpreter; \<open>ord\<close> maps the tuple of children to that order. Any \<open>ord\<close> that
  lists each member once is possible.
\<close>

definition set_order :: "(nat list \<Rightarrow> nat list) \<Rightarrow> bool" where
  "set_order ord \<longleftrightarrow> (\<forall>cs. distinct (ord cs) \<and> set (ord cs) = set cs)"

definition new_Value :: "(nat list \<Rightarrow> nat list) \<Rightarrow> real \<Rightarrow> nat list \<Rightarrow> closure \<Rightarrow> store \<Rightarrow> nat \<times> store" where
  "new_Value ord d children bw s =
     (length s, s @ [\<lparr>data = d, grad = 0, prev = ord children, backward_fn = bw\<rparr>])"

fun ensure_value :: "(nat list \<Rightarrow> nat list) \<Rightarrow> arg \<Rightarrow> store \<Rightarrow> nat \<times> store" where
  "ensure_value ord (Node v) s = (v, s)"
| "ensure_value ord (Num x) s = new_Value ord x [] Leaf s"

definition add :: "(nat list \<Rightarrow> nat list) \<Rightarrow> nat \<Rightarrow> arg \<Rightarrow> store \<Rightarrow> nat \<times> store" where
  "add ord self other0 s =
     (let (other, s1) = ensure_value ord other0 s
      in new_Value ord (data (s1 ! self) + data (s1 ! other)) [self, other] (AddBw self other) s1)"


definition neg :: "(nat list \<Rightarrow> nat list) \<Rightarrow> nat \<Rightarrow> store \<Rightarrow> nat \<times> store" where
  "neg ord self s = new_Value ord (- data (s ! self)) [self] (NegBw self) s"

definition sub :: "(nat list \<Rightarrow> nat list) \<Rightarrow> nat \<Rightarrow> arg \<Rightarrow> store \<Rightarrow> nat \<times> store" where
  "sub ord self other0 s =
     (let (other, s1) = ensure_value ord other0 s;
          (n, s2) = neg ord other s1
      in add ord self (Node n) s2)"

definition mul :: "(nat list \<Rightarrow> nat list) \<Rightarrow> nat \<Rightarrow> arg \<Rightarrow> store \<Rightarrow> nat \<times> store" where
  "mul ord self other0 s =
     (let (other, s1) = ensure_value ord other0 s
      in new_Value ord (data (s1 ! self) * data (s1 ! other)) [self, other] (MulBw self other) s1)"

definition rmul :: "(nat list \<Rightarrow> nat list) \<Rightarrow> nat \<Rightarrow> arg \<Rightarrow> store \<Rightarrow> nat \<times> store" where
  "rmul ord self other s = mul ord self other s"

definition pow :: "(nat list \<Rightarrow> nat list) \<Rightarrow> nat \<Rightarrow> real \<Rightarrow> store \<Rightarrow> error + nat \<times> store" where
  "pow ord self exponent s =
     (case py_pow (data (s ! self)) exponent of
        Inl e \<Rightarrow> Inl (if e = ComplexResult then TypeError else e)
      | Inr d \<Rightarrow> Inr (new_Value ord d [self] (PowBw self exponent) s))"

definition truediv :: "(nat list \<Rightarrow> nat list) \<Rightarrow> nat \<Rightarrow> arg \<Rightarrow> store \<Rightarrow> error + nat \<times> store" where
  "truediv ord self other0 s =
     (let (other, s1) = ensure_value ord other0 s
      in case pow ord other (- 1) s1 of
           Inl e \<Rightarrow> Inl e
         | Inr (p, s2) \<Rightarrow> Inr (mul ord self (Node p) s2))"


definition exp_v :: "(nat list \<Rightarrow> nat list) \<Rightarrow> nat \<Rightarrow> store \<Rightarrow> error + nat \<times> store" where
  "exp_v ord self s =
     (case py_exp (data (s ! self)) of
        Inl e \<Rightarrow> Inl e
      | Inr out_data \<Rightarrow> Inr (new_Value ord out_data [self] (ExpBw self out_data) s))"

definition log_v :: "(nat list \<Rightarrow> nat list) \<Rightarrow> nat \<Rightarrow> store \<Rightarrow> nat \<times> store" where
  "log_v ord self s =
     (let safe = (if data (s ! self) > EPS then data (s ! self) else EPS)
      in new_Value ord (ln safe) [self] (LogBw self safe) s)"

definition tanh_v :: "(nat list \<Rightarrow> nat list) \<Rightarrow> nat \<Rightarrow> store \<Rightarrow> nat \<times> store" where
  "tanh_v ord self s =
     (let t = tanh (data (s ! self))
      in new_Value ord t [self] (TanhBw self t) s)"

definition relu :: "(nat list \<Rightarrow> nat list) \<Rightarrow> nat \<Rightarrow> store \<Rightarrow> nat \<times> store" where
  "relu ord self s =
     (let out_data = (if data (s ! self) > 0 then data (s ! self) else 0)
      in new_Value ord out_data [self] (ReluBw self) s)"


subsection \<open>The local backward rules\<close>

definition add_grad :: "store \<Rightarrow> nat \<Rightarrow> real \<Rightarrow> store" where
  "add_grad s v g = s[v := (s ! v)\<lparr>grad := grad (s ! v) + g\<rparr>]"

text \<open>
  \<open>node._backward()\<close>. Each statement of a closure reads the store as the statement
  before it left it; operand values are read when the closure runs.
\<close>

definition run_backward :: "nat \<Rightarrow> store \<Rightarrow> error + store" where
  "run_backward out s =
     (case backward_fn (s ! out) of
        Leaf \<Rightarrow> Inr s
      | AddBw self other \<Rightarrow>
          (let s1 = add_grad s self (1 * grad (s ! out))
           in Inr (add_grad s1 other (1 * grad (s1 ! out))))
      | NegBw self \<Rightarrow> Inr (add_grad s self (- 1 * grad (s ! out)))
      | MulBw self other \<Rightarrow>
          (let s1 = add_grad s self (data (s ! other) * grad (s ! out))
           in Inr (add_grad s1 other (data (s1 ! self) * grad (s1 ! out))))
      | PowBw self exponent \<Rightarrow>
          (if data (s ! self) = 0 \<and> exponent - 1 < 0
           then Inr (add_grad s self (0 * grad (s ! out)))
           else case py_pow (data (s ! self)) (exponent - 1) of
                  Inl e \<Rightarrow> Inl e
                | Inr p \<Rightarrow> Inr (add_grad s self (exponent * p * grad (s ! out))))
      | ExpBw self out_data \<Rightarrow> Inr (add_grad s self (out_data * grad (s ! out)))
      | LogBw self safe \<Rightarrow>
          (case py_div 1 safe of
             Inl e \<Rightarrow> Inl e
           | Inr q \<Rightarrow> Inr (add_grad s self (q * grad (s ! out))))
      | TanhBw self t \<Rightarrow> Inr (add_grad s self ((1 - t * t) * grad (s ! out)))
      | ReluBw self \<Rightarrow>
          Inr (add_grad s self ((if data (s ! self) > 0 then 1 else 0) * grad (s ! out))))"

subsection \<open>Backpropagation\<close>

text \<open>
  \<open>build\<close> is a recursive depth-first search. It is written with the call stack made
  explicit: a frame is a node with the children of it that are still to be visited. A
  node is appended to \<open>topo\<close> when its frame is popped, that is after all its children.
  An index outside the store denotes no object and is skipped. The limit that Python
  puts on the depth of recursion is not modelled.
\<close>

function build_loop :: "store \<Rightarrow> (nat \<times> nat list) list \<Rightarrow> nat set \<Rightarrow> nat list \<Rightarrow> nat list" where
  "build_loop s [] visited topo = topo"
| "build_loop s ((v, []) # stack) visited topo = build_loop s stack visited (topo @ [v])"
| "build_loop s ((v, child # rest) # stack) visited topo =
     (if child \<notin> visited \<and> child < length s
      then build_loop s ((child, prev (s ! child)) # (v, rest) # stack) (insert child visited) topo
      else build_loop s ((v, rest) # stack) visited topo)"
  by pat_completeness auto
termination
proof (relation "measures [\<lambda>(s, stack, visited, topo). card ({..<length s} - visited),
                           \<lambda>(s, stack, visited, topo). sum_list (map (\<lambda>(v, cs). Suc (length cs)) stack)]",
       goal_cases)
  case (3 s v child rest stack visited topo)
  then have "child \<in> {..<length s} - visited"
    by simp
  then have "card ({..<length s} - visited - {child}) < card ({..<length s} - visited)"
    by (intro card_Diff1_less) simp_all
  moreover have "{..<length s} - insert child visited = {..<length s} - visited - {child}"
    by blast
  ultimately show ?case
    by simp
qed simp_all

definition build :: "store \<Rightarrow> nat \<Rightarrow> nat list" where
  "build s v = (if v < length s then build_loop s [(v, prev (s ! v))] {v} [] else [])"

definition zero_grads :: "nat list \<Rightarrow> store \<Rightarrow> store" where
  "zero_grads topo s = fold (\<lambda>node s. s[node := (s ! node)\<lparr>grad := 0\<rparr>]) topo s"

fun run_all :: "nat list \<Rightarrow> store \<Rightarrow> error + store" where
  "run_all [] s = Inr s"
| "run_all (node # nodes) s =
     (case run_backward node s of Inl e \<Rightarrow> Inl e | Inr s' \<Rightarrow> run_all nodes s')"

definition backward :: "nat \<Rightarrow> store \<Rightarrow> error + store" where
  "backward self s =
     (let topo = build s self;
          s1 = zero_grads topo s;
          s2 = s1[self := (s1 ! self)\<lparr>grad := 1\<rparr>]
      in run_all (rev topo) s2)"

subsection \<open>Helpers on lists of Values\<close>

fun tensor_sum_loop :: "(nat list \<Rightarrow> nat list) \<Rightarrow> nat \<Rightarrow> nat list \<Rightarrow> store \<Rightarrow> nat \<times> store" where
  "tensor_sum_loop ord acc [] s = (acc, s)"
| "tensor_sum_loop ord acc (v # vs) s =
     (let (acc', s1) = add ord acc (Node v) s in tensor_sum_loop ord acc' vs s1)"

definition tensor_sum :: "(nat list \<Rightarrow> nat list) \<Rightarrow> nat list \<Rightarrow> store \<Rightarrow> nat \<times> store" where
  "tensor_sum ord values s =
     (let (z, s1) = new_Value ord 0 [] Leaf s in tensor_sum_loop ord z values s1)"

definition tensor_mean :: "(nat list \<Rightarrow> nat list) \<Rightarrow> nat list \<Rightarrow> store \<Rightarrow> nat \<times> store" where
  "tensor_mean ord vals s =
     (if length vals = 0 then new_Value ord 0 [] Leaf s
      else let (t, s1) = tensor_sum ord vals s
           in mul ord t (Num (1 / real (length vals))) s1)"

text \<open>The self-check at the end of engine.py; it returns the two gradients it prints.\<close>

definition main_check :: "(nat list \<Rightarrow> nat list) \<Rightarrow> error + real \<times> real" where
  "main_check ord =
     (let (x, s1) = new_Value ord 2 [] Leaf [];
          (y, s2) = new_Value ord 3 [] Leaf s1;
          (xy, s3) = mul ord x (Node y) s2;
          (z, s4) = add ord xy (Node y) s3
      in case backward z s4 of
           Inl e \<Rightarrow> Inl e
         | Inr s' \<Rightarrow> Inr (grad (s' ! x), grad (s' ! y)))"

section \<open>nn.py\<close>

text \<open>
  \<open>random.uniform(a, b)\<close> is \<open>a + (b - a) * random()\<close>. The numbers that
  \<open>random()\<close> returns are a parameter \<open>u\<close> of the initializers.
\<close>

definition uniform :: "real \<Rightarrow> real \<Rightarrow> real \<Rightarrow> real" where
  "uniform a b r = a + (b - a) * r"

fun new_Parameters :: "(nat list \<Rightarrow> nat list) \<Rightarrow> real list \<Rightarrow> store \<Rightarrow> nat list \<times> store" where
  "new_Parameters ord [] s = ([], s)"
| "new_Parameters ord (d # ds) s =
     (let (p, s1) = new_Value ord d [] Leaf s;
          (ps, s2) = new_Parameters ord ds s1
      in (p # ps, s2))"

definition xavier_uniform ::
  "(nat list \<Rightarrow> nat list) \<Rightarrow> int \<Rightarrow> int \<Rightarrow> (nat \<Rightarrow> real) \<Rightarrow> store \<Rightarrow> error + nat list \<times> store" where
  "xavier_uniform ord n_in n_out u s =
     (case py_div 6 (of_int (n_in + n_out)) of
        Inl e \<Rightarrow> Inl e
      | Inr q \<Rightarrow>
          (case py_sqrt q of
             Inl e \<Rightarrow> Inl e
           | Inr bound \<Rightarrow>
               Inr (new_Parameters ord (map (\<lambda>k. uniform (- bound) bound (u k)) [0..<nat n_in]) s)))"

definition kaiming_uniform ::
  "(nat list \<Rightarrow> nat list) \<Rightarrow> int \<Rightarrow> (nat \<Rightarrow> real) \<Rightarrow> store \<Rightarrow> error + nat list \<times> store" where
  "kaiming_uniform ord n_in u s =
     (case py_div 2 (of_int n_in) of
        Inl e \<Rightarrow> Inl e
      | Inr q \<Rightarrow>
          (case py_sqrt q of
             Inl e \<Rightarrow> Inl e
           | Inr bound \<Rightarrow>
               Inr (new_Parameters ord (map (\<lambda>k. uniform (- bound) bound (u k)) [0..<nat n_in]) s)))"

datatype initializer = Xavier | Kaiming

record Linear =
  in_features :: int
  out_features :: int
  W :: "nat list list"
  b :: "nat list option"

text \<open>The rows of \<open>W\<close>, one initializer call for each \<open>i\<close> in \<open>range(out_features)\<close>.\<close>

fun init_rows ::
  "(nat list \<Rightarrow> nat list) \<Rightarrow> initializer \<Rightarrow> int \<Rightarrow> int \<Rightarrow> (nat \<Rightarrow> nat \<Rightarrow> real) \<Rightarrow> nat list \<Rightarrow> store
     \<Rightarrow> error + nat list list \<times> store" where
  "init_rows ord init in_f out_f rnd [] s = Inr ([], s)"
| "init_rows ord init in_f out_f rnd (i # is) s =
     (case (if init = Xavier then xavier_uniform ord in_f out_f (rnd i) s
            else kaiming_uniform ord in_f (rnd i) s) of
        Inl e \<Rightarrow> Inl e
      | Inr (row, s1) \<Rightarrow>
          (case init_rows ord init in_f out_f rnd is s1 of
             Inl e \<Rightarrow> Inl e
           | Inr (rows, s2) \<Rightarrow> Inr (row # rows, s2)))"

definition Linear_init ::
  "(nat list \<Rightarrow> nat list) \<Rightarrow> int \<Rightarrow> int \<Rightarrow> bool \<Rightarrow> initializer \<Rightarrow> (nat \<Rightarrow> nat \<Rightarrow> real) \<Rightarrow> store
     \<Rightarrow> error + Linear \<times> store" where
  "Linear_init ord in_f out_f bias init rnd s =
     (case init_rows ord init in_f out_f rnd [0..<nat out_f] s of
        Inl e \<Rightarrow> Inl e
      | Inr (rows, s1) \<Rightarrow>
          (if bias
           then let (bs, s2) = new_Parameters ord (map (\<lambda>_. 0) [0..<nat out_f]) s1
                in Inr (\<lparr>in_features = in_f, out_features = out_f, W = rows, b = Some bs\<rparr>, s2)
           else Inr (\<lparr>in_features = in_f, out_features = out_f, W = rows, b = None\<rparr>, s1)))"

text \<open>\<open>tensor_sum(w * xi for w, xi in zip(self.W[i], x))\<close>: the generator makes each
  product when the loop of \<open>tensor_sum\<close> asks for it.\<close>

fun dot_loop :: "(nat list \<Rightarrow> nat list) \<Rightarrow> nat \<Rightarrow> (nat \<times> nat) list \<Rightarrow> store \<Rightarrow> nat \<times> store" where
  "dot_loop ord acc [] s = (acc, s)"
| "dot_loop ord acc ((w, xi) # rest) s =
     (let (v, s1) = mul ord w (Node xi) s;
          (acc', s2) = add ord acc (Node v) s1
      in dot_loop ord acc' rest s2)"

definition list_get :: "'a list \<Rightarrow> nat \<Rightarrow> error + 'a" where
  "list_get xs i = (if i < length xs then Inr (xs ! i) else Inl IndexError)"

fun Linear_rows :: "(nat list \<Rightarrow> nat list) \<Rightarrow> Linear \<Rightarrow> nat list \<Rightarrow> nat list \<Rightarrow> store \<Rightarrow> error + nat list \<times> store" where
  "Linear_rows ord L x [] s = Inr ([], s)"
| "Linear_rows ord L x (i # is) s =
     (case list_get (W L) i of
        Inl e \<Rightarrow> Inl e
      | Inr row \<Rightarrow>
          (let (z, s1) = new_Value ord 0 [] Leaf s;
               (sm, s2) = dot_loop ord z (zip row x) s1
           in case (case b L of
                      None \<Rightarrow> Inr (sm, s2)
                    | Some bs \<Rightarrow>
                        (case list_get bs i of
                           Inl e \<Rightarrow> Inl e
                         | Inr bi \<Rightarrow> Inr (add ord sm (Node bi) s2))) of
                Inl e \<Rightarrow> Inl e
              | Inr (sm', s3) \<Rightarrow>
                  (case Linear_rows ord L x is s3 of
                     Inl e \<Rightarrow> Inl e
                   | Inr (out, s4) \<Rightarrow> Inr (sm' # out, s4))))"

definition Linear_call :: "(nat list \<Rightarrow> nat list) \<Rightarrow> Linear \<Rightarrow> nat list \<Rightarrow> store \<Rightarrow> error + nat list \<times> store" where
  "Linear_call ord L x s =
     (if int (length x) \<noteq> in_features L then Inl ValueError
      else Linear_rows ord L x [0..<nat (out_features L)] s)"

subsection \<open>stable\_softmax\<close>

fun max_loop :: "store \<Rightarrow> nat \<Rightarrow> nat list \<Rightarrow> nat" where
  "max_loop s max_val [] = max_val"
| "max_loop s max_val (v # vs) =
     max_loop s (if data (s ! max_val) \<ge> data (s ! v) then max_val else v) vs"

fun exps_loop :: "(nat list \<Rightarrow> nat list) \<Rightarrow> nat \<Rightarrow> nat list \<Rightarrow> store \<Rightarrow> error + nat list \<times> store" where
  "exps_loop ord max_val [] s = Inr ([], s)"
| "exps_loop ord max_val (v # vs) s =
     (let (d, s1) = sub ord v (Node max_val) s
      in case exp_v ord d s1 of
           Inl err \<Rightarrow> Inl err
         | Inr (e, s2) \<Rightarrow>
             (case exps_loop ord max_val vs s2 of
                Inl err \<Rightarrow> Inl err
              | Inr (es, s3) \<Rightarrow> Inr (e # es, s3)))"

fun probs_loop :: "(nat list \<Rightarrow> nat list) \<Rightarrow> nat \<Rightarrow> nat list \<Rightarrow> store \<Rightarrow> error + nat list \<times> store" where
  "probs_loop ord denom [] s = Inr ([], s)"
| "probs_loop ord denom (e # es) s =
     (case truediv ord e (Node denom) s of
        Inl err \<Rightarrow> Inl err
      | Inr (p, s1) \<Rightarrow>
          (case probs_loop ord denom es s1 of
             Inl err \<Rightarrow> Inl err
           | Inr (ps, s2) \<Rightarrow> Inr (p # ps, s2)))"

definition stable_softmax :: "(nat list \<Rightarrow> nat list) \<Rightarrow> nat list \<Rightarrow> store \<Rightarrow> error + nat list \<times> store" where
  "stable_softmax ord logits s =
     (case logits of
        [] \<Rightarrow> Inr ([], s)
      | v0 # rest \<Rightarrow>
          (let max_val = max_loop s v0 rest
           in case exps_loop ord max_val logits s of
                Inl err \<Rightarrow> Inl err
              | Inr (exps, s1) \<Rightarrow>
                  (let (denom, s2) = tensor_sum ord exps s1
                   in probs_loop ord denom exps s2)))"

section \<open>optim.py\<close>

subsection \<open>Losses\<close>

fun mse_losses :: "(nat list \<Rightarrow> nat list) \<Rightarrow> (nat \<times> real) list \<Rightarrow> store \<Rightarrow> error + nat list \<times> store" where
  "mse_losses ord [] s = Inr ([], s)"
| "mse_losses ord ((p, t) # rest) s =
     (let (tv, s1) = new_Value ord t [] Leaf s;
          (d, s2) = sub ord p (Node tv) s1
      in case pow ord d 2 s2 of
           Inl e \<Rightarrow> Inl e
         | Inr (l, s3) \<Rightarrow>
             (case mse_losses ord rest s3 of
                Inl e \<Rightarrow> Inl e
              | Inr (ls, s4) \<Rightarrow> Inr (l # ls, s4)))"

definition MSELoss :: "(nat list \<Rightarrow> nat list) \<Rightarrow> nat list \<Rightarrow> real list \<Rightarrow> store \<Rightarrow> error + nat \<times> store" where
  "MSELoss ord preds targets s =
     (if length preds \<noteq> length targets then Inl AssertionError
      else case mse_losses ord (zip preds targets) s of
             Inl e \<Rightarrow> Inl e
           | Inr (losses, s1) \<Rightarrow> Inr (tensor_mean ord losses s1))"

fun ce_losses :: "(nat list \<Rightarrow> nat list) \<Rightarrow> (nat \<times> real) list \<Rightarrow> store \<Rightarrow> nat list \<times> store" where
  "ce_losses ord [] s = ([], s)"
| "ce_losses ord ((p, t) # rest) s =
     (if t = 1
      then let (l, s1) = log_v ord p s;
               (n, s2) = neg ord l s1;
               (ls, s3) = ce_losses ord rest s2
           in (n # ls, s3)
      else ce_losses ord rest s)"

definition CrossEntropyLoss :: "(nat list \<Rightarrow> nat list) \<Rightarrow> nat list \<Rightarrow> real list \<Rightarrow> store \<Rightarrow> error + nat \<times> store" where
  "CrossEntropyLoss ord logits targets s =
     (case stable_softmax ord logits s of
        Inl e \<Rightarrow> Inl e
      | Inr (probs, s1) \<Rightarrow>
          (let (losses, s2) = ce_losses ord (zip probs targets) s1
           in Inr (tensor_mean ord losses s2)))"

subsection \<open>Optimizers\<close>

text \<open>
  The per-parameter state is a dictionary keyed by \<open>id(p)\<close>, here by the parameter's
  index in the store. The fields \<open>_vel\<close>, \<open>_m\<close>, \<open>_v\<close>, \<open>_t\<close> are named
  \<open>vel\<close>, \<open>moment1\<close>, \<open>moment2\<close>, \<open>step_count\<close>, and Adam's
  \<open>weight_decay\<close> is \<open>weight_decay_adam\<close>.
\<close>

record Optimizer =
  params :: "nat list"
  lr :: real

definition zero_grad :: "nat list \<Rightarrow> store \<Rightarrow> store" where
  "zero_grad ps s = fold (\<lambda>p s. s[p := (s ! p)\<lparr>grad := 0\<rparr>]) ps s"

record SGD = Optimizer +
  momentum :: real
  weight_decay :: real
  vel :: "nat \<rightharpoonup> real"

definition SGD_init :: "nat list \<Rightarrow> real \<Rightarrow> real \<Rightarrow> real \<Rightarrow> SGD" where
  "SGD_init ps lr0 momentum0 weight_decay0 =
     \<lparr>params = ps, lr = lr0, momentum = momentum0, weight_decay = weight_decay0,
      vel = (\<lambda>p. if p \<in> set ps then Some 0 else None)\<rparr>"

definition dict_get :: "(nat \<rightharpoonup> real) \<Rightarrow> nat \<Rightarrow> real \<Rightarrow> real" where
  "dict_get d k dflt = (case d k of None \<Rightarrow> dflt | Some x \<Rightarrow> x)"

fun SGD_loop :: "nat list \<Rightarrow> SGD \<Rightarrow> store \<Rightarrow> SGD \<times> store" where
  "SGD_loop [] opt s = (opt, s)"
| "SGD_loop (p # ps) opt s =
     (let g0 = grad (s ! p);
          g = (if weight_decay opt \<noteq> 0 then g0 + weight_decay opt * data (s ! p) else g0)
      in if momentum opt \<noteq> 0
         then let v = dict_get (vel opt) p 0;
                  v_new = momentum opt * v - lr opt * g
              in SGD_loop ps (opt\<lparr>vel := (vel opt)(p \<mapsto> v_new)\<rparr>)
                   (s[p := (s ! p)\<lparr>data := data (s ! p) + v_new\<rparr>])
         else SGD_loop ps opt (s[p := (s ! p)\<lparr>data := data (s ! p) + - lr opt * g\<rparr>]))"

definition SGD_step :: "SGD \<Rightarrow> store \<Rightarrow> SGD \<times> store" where
  "SGD_step opt s = SGD_loop (params opt) opt s"

record Adam = Optimizer +
  beta1 :: real
  beta2 :: real
  eps :: real
  weight_decay_adam :: real
  moment1 :: "nat \<rightharpoonup> real"
  moment2 :: "nat \<rightharpoonup> real"
  step_count :: int

definition Adam_init :: "nat list \<Rightarrow> real \<Rightarrow> real \<times> real \<Rightarrow> real \<Rightarrow> real \<Rightarrow> Adam" where
  "Adam_init ps lr0 betas eps0 weight_decay0 =
     \<lparr>params = ps, lr = lr0, beta1 = fst betas, beta2 = snd betas, eps = eps0,
      weight_decay_adam = weight_decay0,
      moment1 = (\<lambda>p. if p \<in> set ps then Some 0 else None),
      moment2 = (\<lambda>p. if p \<in> set ps then Some 0 else None),
      step_count = 0\<rparr>"

text \<open>The constructor with its default arguments.\<close>

definition Adam_default :: "nat list \<Rightarrow> Adam" where
  "Adam_default ps = Adam_init ps (1 / 10 ^ 3) (9 / 10, 999 / 1000) (1 / 10 ^ 8) 0"

text \<open>One parameter's turn in the loop of \<open>Adam.step\<close>.\<close>

definition Adam_update :: "nat \<Rightarrow> Adam \<Rightarrow> store \<Rightarrow> error + Adam \<times> store" where
  "Adam_update p opt s =
     (let g0 = grad (s ! p);
          g = (if weight_decay_adam opt \<noteq> 0 then g0 + weight_decay_adam opt * data (s ! p) else g0);
          m0 = dict_get (moment1 opt) p 0;
          v0 = dict_get (moment2 opt) p 0;
          m = beta1 opt * m0 + (1 - beta1 opt) * g;
          v = beta2 opt * v0 + (1 - beta2 opt) * (g * g);
          opt' = opt\<lparr>moment1 := (moment1 opt)(p \<mapsto> m), moment2 := (moment2 opt)(p \<mapsto> v)\<rparr>
      in case py_pow (beta1 opt) (of_int (step_count opt)) of
           Inl e \<Rightarrow> Inl e
         | Inr b1t \<Rightarrow>
       (case py_div m (1 - b1t) of
           Inl e \<Rightarrow> Inl e
         | Inr m_hat \<Rightarrow>
       (case py_pow (beta2 opt) (of_int (step_count opt)) of
           Inl e \<Rightarrow> Inl e
         | Inr b2t \<Rightarrow>
       (case py_div v (1 - b2t) of
           Inl e \<Rightarrow> Inl e
         | Inr v_hat \<Rightarrow>
       (case py_sqrt v_hat of
           Inl e \<Rightarrow> Inl e
         | Inr r \<Rightarrow>
       (case py_div (- lr opt * m_hat) (r + eps opt) of
           Inl e \<Rightarrow> Inl e
         | Inr step \<Rightarrow>
             Inr (opt', s[p := (s ! p)\<lparr>data := data (s ! p) + step\<rparr>])))))))"

fun Adam_loop :: "nat list \<Rightarrow> Adam \<Rightarrow> store \<Rightarrow> error + Adam \<times> store" where
  "Adam_loop [] opt s = Inr (opt, s)"
| "Adam_loop (p # ps) opt s =
     (case Adam_update p opt s of
        Inl e \<Rightarrow> Inl e
      | Inr (opt', s') \<Rightarrow> Adam_loop ps opt' s')"

definition Adam_step :: "Adam \<Rightarrow> store \<Rightarrow> error + Adam \<times> store" where
  "Adam_step opt s = Adam_loop (params opt) (opt\<lparr>step_count := step_count opt + 1\<rparr>) s"

section \<open>Notions used in the proofs\<close>

text \<open>Two stores hold the same graph: they differ in gradients at most.\<close>

definition same_frame :: "store \<Rightarrow> store \<Rightarrow> bool" where
  "same_frame s s' \<longleftrightarrow>
     length s = length s' \<and>
     (\<forall>i. data (s ! i) = data (s' ! i) \<and> prev (s ! i) = prev (s' ! i)
          \<and> backward_fn (s ! i) = backward_fn (s' ! i))"

text \<open>They hold the same graph and the same gradients on the nodes in \<open>T\<close>.\<close>

definition agree_on :: "nat set \<Rightarrow> store \<Rightarrow> store \<Rightarrow> bool" where
  "agree_on T s s' \<longleftrightarrow> same_frame s s' \<and> (\<forall>i\<in>T. grad (s ! i) = grad (s' ! i))"



text \<open>
  The nodes that \<open>r\<close> reaches through \<open>_prev\<close>, and the invariant of the
  traversal: a node is visited when it is in \<open>topo\<close> or on the stack, the children of
  a node in \<open>topo\<close> are visited, and those of a node on the stack are visited or still
  to come.
\<close>

definition edges :: "store \<Rightarrow> (nat \<times> nat) set" where
  "edges s = {(v, c). v < length s \<and> c \<in> set (prev (s ! v)) \<and> c < length s}"

definition reachable :: "store \<Rightarrow> nat \<Rightarrow> nat set" where
  "reachable s r = {v. r < length s \<and> (r, v) \<in> (edges s)\<^sup>*}"

definition build_inv :: "store \<Rightarrow> nat set \<Rightarrow> (nat \<times> nat list) list \<Rightarrow> nat set \<Rightarrow> nat list \<Rightarrow> bool" where
  "build_inv s R stack visited topo \<longleftrightarrow>
     visited = set topo \<union> fst ` set stack \<and>
     visited \<subseteq> R \<and>
     (\<forall>v\<in>set topo. \<forall>c\<in>set (prev (s ! v)). c < length s \<longrightarrow> c \<in> visited) \<and>
     (\<forall>(v, rest)\<in>set stack. set rest \<subseteq> set (prev (s ! v)) \<and>
        (\<forall>c\<in>set (prev (s ! v)). c < length s \<longrightarrow> c \<in> visited \<or> c \<in> set rest))"

section \<open>Iteration orders of small sets\<close>

lemma set_order_Nil: "set_order ord \<Longrightarrow> ord [] = []"
  by (metis set_order_def set_empty)


lemma set_order_same: "set_order ord \<Longrightarrow> ord [u, u] = [u]"
proof -
  assume "set_order ord"
  then have "distinct (ord [u, u])" and "set (ord [u, u]) = {u}"
    by (simp_all add: set_order_def)
  then show ?thesis
    by (cases "ord [u, u]") (auto simp: subset_singleton_iff)
qed

lemma set_order_pair:
  assumes "set_order ord" "u \<noteq> w"
  shows "ord [u, w] = [u, w] \<or> ord [u, w] = [w, u]"
proof -
  from assms have d: "distinct (ord [u, w])" and s: "set (ord [u, w]) = {u, w}"
    by (simp_all add: set_order_def)
  have "length (ord [u, w]) = 2"
    using distinct_card[OF d] s assms(2) by simp
  then obtain x y where "ord [u, w] = [x, y]"
    by (metis (no_types, opaque_lifting) One_nat_def Suc_1 length_0_conv length_Suc_conv)
  with d s show ?thesis
    by (auto simp: doubleton_eq_iff)
qed

lemma set_order_remdups: "set_order remdups"
  by (simp add: set_order_def)

section \<open>Backward passes over concrete expressions\<close>

lemmas eval_simps = new_Value_def mul_def add_def backward_def build_def zero_grads_def
  run_backward_def add_grad_def Let_def nth_append

text \<open>
  C1. For \<open>z = x*y + y\<close> with leaves \<open>x = 2.0\<close> and \<open>y = 3.0\<close>, \<open>z.backward()\<close>
  leaves \<open>x.grad = 3.0\<close> and \<open>y.grad = 3.0\<close>, in whatever order the sets of
  children are iterated.
\<close>

theorem main_check_gradients: "set_order ord \<Longrightarrow> main_check ord = Inr (3, 3)"
proof -
  assume h: "set_order ord"
  have n: "ord [] = []"
    using h by (rule set_order_Nil)
  have "ord [0, Suc 0] = [0, Suc 0] \<or> ord [0, Suc 0] = [Suc 0, 0]"
    using h by (intro set_order_pair) simp_all
  moreover have "ord [Suc (Suc 0), Suc 0] = [Suc (Suc 0), Suc 0]
      \<or> ord [Suc (Suc 0), Suc 0] = [Suc 0, Suc (Suc 0)]"
    using h by (intro set_order_pair) simp_all
  ultimately show ?thesis
    by (elim disjE) (simp_all add: main_check_def eval_simps n)
qed

theorem main_check_gradients_witness: "set_order remdups \<and> main_check remdups = Inr (3, 3)"
  using main_check_gradients [OF set_order_remdups] set_order_remdups by simp

text \<open>
  C2. A leaf that feeds two products which are summed into the root receives both
  contributions: for \<open>a = Value(2)\<close>, \<open>b = a*a + a*3\<close>, after \<open>b.backward()\<close>
  the gradient of \<open>a\<close> is 7.
\<close>

theorem two_paths_accumulate:
  assumes "set_order ord"
  shows "(let (a, s1) = new_Value ord 2 [] Leaf [];
              (aa, s2) = mul ord a (Node a) s1;
              (a3, s3) = mul ord a (Num 3) s2;
              (root, s4) = add ord aa (Node a3) s3
          in map_sum id (\<lambda>s'. grad (s' ! a)) (backward root s4)) = Inr 7"
proof -
  have n: "ord [] = []"
    using assms by (rule set_order_Nil)
  have o: "ord [0, 0] = [0]"
    using assms by (rule set_order_same)
  have "ord [0, Suc (Suc 0)] = [0, Suc (Suc 0)] \<or> ord [0, Suc (Suc 0)] = [Suc (Suc 0), 0]"
    using assms by (intro set_order_pair) simp_all
  moreover have "ord [Suc 0, Suc (Suc (Suc 0))] = [Suc 0, Suc (Suc (Suc 0))]
      \<or> ord [Suc 0, Suc (Suc (Suc 0))] = [Suc (Suc (Suc 0)), Suc 0]"
    using assms by (intro set_order_pair) simp_all
  ultimately show ?thesis
    by (elim disjE) (simp_all add: eval_simps n o)
qed

theorem two_paths_accumulate_witness:
  "set_order remdups \<and>
   (let (a, s1) = new_Value remdups 2 [] Leaf [];
        (aa, s2) = mul remdups a (Node a) s1;
        (a3, s3) = mul remdups a (Num 3) s2;
        (root, s4) = add remdups aa (Node a3) s3
    in map_sum id (\<lambda>s'. grad (s' ! a)) (backward root s4)) = Inr 7"
  using two_paths_accumulate [OF set_order_remdups] set_order_remdups by simp

section \<open>Repeated backward passes\<close>

lemma nth_beyond: "length xs = length ys \<Longrightarrow> length xs \<le> i \<Longrightarrow> xs ! i = ys ! i"
proof (induction xs arbitrary: ys i)
  case Nil
  then show ?case by simp
next
  case (Cons x xs)
  then obtain y ys' where ys: "ys = y # ys'"
    by (cases ys) auto
  from Cons.prems obtain j where i: "i = Suc j"
    by (cases i) auto
  with Cons.IH[of ys' j] Cons.prems ys show ?case
    by simp
qed

lemma nth_update_grad:
  "(s[v := (s ! v)\<lparr>grad := g\<rparr>]) ! i = (if i = v \<and> v < length s then (s ! v)\<lparr>grad := g\<rparr> else s ! i)"
  by (cases "v < length s") (auto simp: nth_list_update list_update_beyond)

lemma same_frame_length: "same_frame s s' \<Longrightarrow> length s = length s'"
  by (simp add: same_frame_def)

lemma same_frame_refl: "same_frame s s"
  by (simp add: same_frame_def)

lemma same_frame_sym: "same_frame s s' \<Longrightarrow> same_frame s' s"
  by (simp add: same_frame_def)

lemma same_frame_trans: "same_frame s s' \<Longrightarrow> same_frame s' s'' \<Longrightarrow> same_frame s s''"
  unfolding same_frame_def by (intro conjI allI) metis+

lemma same_frame_update: "same_frame s (s[v := (s ! v)\<lparr>grad := g\<rparr>])"
  by (simp add: same_frame_def nth_update_grad)

lemma same_frame_add_grad: "same_frame s (add_grad s v g)"
  unfolding add_grad_def by (rule same_frame_update)

lemma same_frame_add_grad2: "same_frame s (add_grad (add_grad s v g) v' g')"
  by (rule same_frame_trans[OF same_frame_add_grad same_frame_add_grad])

lemma same_frame_run_backward: "run_backward v s = Inr s' \<Longrightarrow> same_frame s s'"
proof (cases "backward_fn (s ! v)")
  case (PowBw u e)
  assume "run_backward v s = Inr s'"
  with PowBw show ?thesis
    by (auto simp: run_backward_def same_frame_add_grad split: if_splits sum.splits)
next
  case (LogBw u c)
  assume "run_backward v s = Inr s'"
  with LogBw show ?thesis
    by (auto simp: run_backward_def same_frame_add_grad split: sum.splits)
qed (auto simp: run_backward_def Let_def same_frame_add_grad same_frame_add_grad2 same_frame_refl)

lemma same_frame_run_all: "run_all vs s = Inr s' \<Longrightarrow> same_frame s s'"
proof (induction vs arbitrary: s)
  case Nil
  then show ?case by (simp add: same_frame_refl)
next
  case (Cons v vs)
  then show ?case
    by (auto split: sum.splits intro: same_frame_trans dest: same_frame_run_backward)
qed

lemma same_frame_zero_grads: "same_frame s (zero_grads topo s)"
  unfolding zero_grads_def
proof (induction topo arbitrary: s)
  case Nil
  then show ?case by (simp add: same_frame_refl)
next
  case (Cons v vs)
  show ?case
    using same_frame_trans[OF same_frame_update Cons.IH] by simp
qed

lemma same_frame_backward: "backward r s = Inr s' \<Longrightarrow> same_frame s s'"
  unfolding backward_def Let_def
  by (blast intro: same_frame_trans same_frame_zero_grads same_frame_update dest: same_frame_run_all)

lemma build_loop_frame:
  "same_frame s s' \<Longrightarrow> build_loop s stack visited topo = build_loop s' stack visited topo"
proof (induction s stack visited topo rule: build_loop.induct)
  case (3 s v child rest stack visited topo)
  then show ?case
    by (simp add: same_frame_def)
qed simp_all

lemma build_frame: "same_frame s s' \<Longrightarrow> build s r = build s' r"
  using build_loop_frame[of s s'] by (simp add: build_def same_frame_def)

lemma zero_grads_grad:
  "v \<in> set topo \<Longrightarrow> v < length s \<Longrightarrow> grad (zero_grads topo s ! v) = 0"
  unfolding zero_grads_def
proof (induction topo arbitrary: s rule: rev_induct)
  case Nil
  then show ?case by simp
next
  case (snoc x xs)
  have len: "length (fold (\<lambda>node s. s[node := (s ! node)\<lparr>grad := 0\<rparr>]) xs s) = length s"
    using same_frame_zero_grads[of s xs] by (simp add: same_frame_def zero_grads_def)
  show ?case
  proof (cases "v = x")
    case True
    with snoc.prems len show ?thesis
      by (simp add: nth_update_grad)
  next
    case False
    with snoc len show ?thesis
      by (simp add: nth_update_grad)
  qed
qed

lemma agree_on_add_grad:
  assumes "agree_on T s s'" "v \<in> T \<Longrightarrow> g = g'" 
  shows "agree_on T (add_grad s v g) (add_grad s' v g')"
proof -
  from assms(1) have len: "length s = length s'" and fr: "same_frame s s'"
    by (simp_all add: agree_on_def same_frame_def)
  have "same_frame (add_grad s v g) (add_grad s' v g')"
    by (meson fr same_frame_add_grad same_frame_sym same_frame_trans)
  moreover have "\<forall>i\<in>T. grad (add_grad s v g ! i) = grad (add_grad s' v g' ! i)"
    using assms len by (auto simp: add_grad_def nth_update_grad agree_on_def)
  ultimately show ?thesis
    by (simp add: agree_on_def)
qed


lemma agree_onD:
  assumes "agree_on T s s'"
  shows "data (s ! i) = data (s' ! i)" "backward_fn (s ! i) = backward_fn (s' ! i)"
    "i \<in> T \<Longrightarrow> grad (s ! i) = grad (s' ! i)"
  using assms by (simp_all add: agree_on_def same_frame_def)

lemma agree_on_run_backward:
  assumes "agree_on T s s'" "out \<in> T"
  shows "rel_sum (=) (agree_on T) (run_backward out s) (run_backward out s')"
proof (cases "backward_fn (s ! out)")
  case Leaf
  with assms show ?thesis
    by (simp add: run_backward_def agree_onD(2)[OF assms(1), symmetric])
next
  case (AddBw u w)
  let ?s1 = "add_grad s u (1 * grad (s ! out))" and ?s1' = "add_grad s' u (1 * grad (s' ! out))"
  have 1: "agree_on T ?s1 ?s1'"
    using assms by (intro agree_on_add_grad[OF assms(1)]) (simp_all add: agree_onD(3))
  have "agree_on T (add_grad ?s1 w (1 * grad (?s1 ! out))) (add_grad ?s1' w (1 * grad (?s1' ! out)))"
    using 1 assms(2) by (intro agree_on_add_grad[OF 1]) (simp_all add: agree_onD(3))
  with AddBw show ?thesis
    by (simp add: run_backward_def agree_onD(2)[OF assms(1), symmetric] Let_def)
next
  case (NegBw u)
  have "agree_on T (add_grad s u (- 1 * grad (s ! out))) (add_grad s' u (- 1 * grad (s' ! out)))"
    using assms by (intro agree_on_add_grad[OF assms(1)]) (simp_all add: agree_onD(3))
  with NegBw show ?thesis
    by (simp add: run_backward_def agree_onD(2)[OF assms(1), symmetric])
next
  case (MulBw u w)
  let ?s1 = "add_grad s u (data (s ! w) * grad (s ! out))"
    and ?s1' = "add_grad s' u (data (s' ! w) * grad (s' ! out))"
  have 1: "agree_on T ?s1 ?s1'"
    using assms by (intro agree_on_add_grad[OF assms(1)]) (simp_all add: agree_onD(3) agree_onD(1)[OF assms(1)])
  have "agree_on T (add_grad ?s1 w (data (?s1 ! u) * grad (?s1 ! out)))
          (add_grad ?s1' w (data (?s1' ! u) * grad (?s1' ! out)))"
    using 1 assms(2) by (intro agree_on_add_grad[OF 1]) (simp_all add: agree_onD(3) agree_onD(1)[OF 1])
  with MulBw show ?thesis
    by (simp add: run_backward_def agree_onD(2)[OF assms(1), symmetric] Let_def)
next
  case (PowBw u e)
  have d: "data (s' ! u) = data (s ! u)" and g: "grad (s' ! out) = grad (s ! out)"
    using assms by (simp_all add: agree_onD)
  have "\<And>c. agree_on T (add_grad s u (c * grad (s ! out))) (add_grad s' u (c * grad (s ! out)))"
    using assms by (intro agree_on_add_grad[OF assms(1)]) simp_all
  moreover have "agree_on T (add_grad s u 0) (add_grad s' u 0)"
    using assms by (intro agree_on_add_grad[OF assms(1)]) simp_all
  ultimately show ?thesis
    using PowBw
    by (simp add: run_backward_def agree_onD(2)[OF assms(1), symmetric] d g split: sum.splits)
next
  case (ExpBw u c)
  have "agree_on T (add_grad s u (c * grad (s ! out))) (add_grad s' u (c * grad (s' ! out)))"
    using assms by (intro agree_on_add_grad[OF assms(1)]) (simp_all add: agree_onD(3))
  with ExpBw show ?thesis
    by (simp add: run_backward_def agree_onD(2)[OF assms(1), symmetric])
next
  case (LogBw u c)
  have "\<And>q. agree_on T (add_grad s u (q * grad (s ! out))) (add_grad s' u (q * grad (s' ! out)))"
    using assms by (intro agree_on_add_grad[OF assms(1)]) (simp_all add: agree_onD(3))
  with LogBw show ?thesis
    by (simp add: run_backward_def agree_onD(2)[OF assms(1), symmetric] split: sum.splits)
next
  case (TanhBw u c)
  have "agree_on T (add_grad s u ((1 - c * c) * grad (s ! out))) (add_grad s' u ((1 - c * c) * grad (s' ! out)))"
    using assms by (intro agree_on_add_grad[OF assms(1)]) (simp_all add: agree_onD(3))
  with TanhBw show ?thesis
    by (simp add: run_backward_def agree_onD(2)[OF assms(1), symmetric])
next
  case (ReluBw u)
  have d: "data (s' ! u) = data (s ! u)" 
    using assms by (simp_all add: agree_onD)
  have "\<And>c. agree_on T (add_grad s u (c * grad (s ! out))) (add_grad s' u (c * grad (s' ! out)))"
    using assms by (intro agree_on_add_grad[OF assms(1)]) (simp_all add: agree_onD(3))
  with ReluBw show ?thesis
    by (simp add: run_backward_def agree_onD(2)[OF assms(1), symmetric] d)
qed

lemma agree_on_run_all:
  "agree_on T s s' \<Longrightarrow> set vs \<subseteq> T \<Longrightarrow> rel_sum (=) (agree_on T) (run_all vs s) (run_all vs s')"
proof (induction vs arbitrary: s s')
  case Nil
  then show ?case by simp
next
  case (Cons v vs)
  from Cons.prems have "rel_sum (=) (agree_on T) (run_backward v s) (run_backward v s')"
    by (intro agree_on_run_backward) simp_all
  with Cons show ?case
    by (cases "run_backward v s"; cases "run_backward v s'") simp_all
qed

subsection \<open>The traversal visits the reachable nodes\<close>

lemma build_loop_inv:
  "\<forall>v\<in>R. \<forall>c\<in>set (prev (s ! v)). c < length s \<longrightarrow> c \<in> R \<Longrightarrow>
   build_inv s R stack visited topo \<Longrightarrow>
     visited \<subseteq> set (build_loop s stack visited topo)
     \<and> set (build_loop s stack visited topo) \<subseteq> R
     \<and> (\<forall>v\<in>set (build_loop s stack visited topo). \<forall>c\<in>set (prev (s ! v)).
           c < length s \<longrightarrow> c \<in> set (build_loop s stack visited topo))"
proof (induction s stack visited topo rule: build_loop.induct)
  case (1 s visited topo)
  then show ?case
    by (auto simp: build_inv_def)
next
  case (2 s v stack visited topo)
  have "build_inv s R stack visited (topo @ [v])"
    using "2.prems"(2) unfolding build_inv_def by auto
  from "2.IH"[OF "2.prems"(1) this] show ?case
    by simp
next
  case (3 s v child rest stack visited topo)
  show ?case
  proof (cases "child \<notin> visited \<and> child < length s")
    case True
    have v: "v \<in> R" "child \<in> set (prev (s ! v))"
      using "3.prems"(2) unfolding build_inv_def by auto
    with True "3.prems"(1) have "child \<in> R"
      by blast
    then have "build_inv s R ((child, prev (s ! child)) # (v, rest) # stack) (insert child visited) topo"
      using "3.prems"(2) unfolding build_inv_def by auto
    from "3.IH"(1)[OF True "3.prems"(1) this] True show ?thesis
      by simp
  next
    case False
    have "build_inv s R ((v, rest) # stack) visited topo"
      using "3.prems"(2) False unfolding build_inv_def by auto
    from "3.IH"(2)[OF False "3.prems"(1) this] False show ?thesis
      by auto
  qed
qed

lemma build_reachable: "set (build s r) = reachable s r"
proof (cases "r < length s")
  case False
  then show ?thesis
    by (simp add: build_def reachable_def)
next
  case True
  let ?R = "reachable s r"
  let ?B = "build_loop s [(r, prev (s ! r))] {r} []"
  have closed: "\<forall>v\<in>?R. \<forall>c\<in>set (prev (s ! v)). c < length s \<longrightarrow> c \<in> ?R"
  proof (intro ballI impI)
    fix v c
    assume v: "v \<in> ?R" and c: "c \<in> set (prev (s ! v))" "c < length s"
    from v have "v = r \<or> (\<exists>u. (u, v) \<in> edges s)"
      unfolding reachable_def by (auto elim: rtranclE)
    with True have "v < length s"
      by (auto simp: edges_def)
    with c have "(v, c) \<in> edges s"
      by (simp add: edges_def)
    with v show "c \<in> ?R"
      by (auto simp: reachable_def)
  qed
  have "build_inv s ?R [(r, prev (s ! r))] {r} []"
    using True by (simp add: build_inv_def reachable_def)
  from build_loop_inv[OF closed this]
  have r: "r \<in> set ?B" and sub: "set ?B \<subseteq> ?R"
    and cl: "\<forall>v\<in>set ?B. \<forall>c\<in>set (prev (s ! v)). c < length s \<longrightarrow> c \<in> set ?B"
    by simp_all
  have "v \<in> set ?B" if "(r, v) \<in> (edges s)\<^sup>*" for v
    using that
  proof (induction rule: rtrancl_induct)
    case base
    show ?case by (rule r)
  next
    case (step y z)
    with cl show ?case
      by (auto simp: edges_def)
  qed
  then have "?R \<subseteq> set ?B"
    by (auto simp: reachable_def)
  with sub True show ?thesis
    by (simp add: build_def)
qed

text \<open>
  C3. When \<open>backward\<close> has returned from a root, calling it again on the same root,
  with no value changed in between, returns as well and leaves every node reachable from
  the root with the gradient it had after the first call.
\<close>

theorem backward_twice:
  assumes "backward r s = Inr s1"
  shows "\<exists>s2. backward r s1 = Inr s2 \<and> (\<forall>v \<in> reachable s r. grad (s2 ! v) = grad (s1 ! v))"
proof -
  let ?topo = "build s r"
  let ?z = "\<lambda>s. (zero_grads ?topo s)[r := (zero_grads ?topo s ! r)\<lparr>grad := 1\<rparr>]"
  have fr: "same_frame s s1"
    using assms by (rule same_frame_backward)
  then have topo: "build s1 r = ?topo"
    by (simp add: build_frame)
  have run: "run_all (rev ?topo) (?z s) = Inr s1"
    using assms by (simp add: backward_def Let_def)
  have "same_frame s (?z s)" "same_frame s1 (?z s1)"
    by (rule same_frame_trans[OF same_frame_zero_grads same_frame_update])+
  then have frz: "same_frame (?z s1) (?z s)"
    using fr by (blast intro: same_frame_sym same_frame_trans)
  have len: "length (zero_grads ?topo s) = length s" "length (zero_grads ?topo s1) = length s"
    "length s1 = length s"
    using same_frame_length[OF same_frame_zero_grads[of s ?topo]]
      same_frame_length[OF same_frame_zero_grads[of s1 ?topo]] same_frame_length[OF fr]
    by simp_all
  have "grad (?z s1 ! i) = grad (?z s ! i)" if "i \<in> set ?topo" for i
  proof (cases "i < length s")
    case True
    with that len show ?thesis
      by (simp add: nth_update_grad zero_grads_grad)
  next
    case False
    have "?z s1 ! i = ?z s ! i"
      using False len by (intro nth_beyond) simp_all
    then show ?thesis
      by (rule arg_cong)
  qed
  with frz have "agree_on (set ?topo) (?z s1) (?z s)"
    unfolding agree_on_def by blast
  then have "rel_sum (=) (agree_on (set ?topo)) (run_all (rev ?topo) (?z s1)) (run_all (rev ?topo) (?z s))"
    by (rule agree_on_run_all) simp
  with run obtain s2 where s2: "run_all (rev ?topo) (?z s1) = Inr s2" "agree_on (set ?topo) s2 s1"
    by (cases "run_all (rev ?topo) (?z s1)") simp_all
  from s2(1) have "backward r s1 = Inr s2"
    by (simp add: backward_def Let_def topo)
  moreover from s2(2) have "\<forall>v \<in> reachable s r. grad (s2 ! v) = grad (s1 ! v)"
    unfolding agree_on_def build_reachable by blast
  ultimately show ?thesis
    by blast
qed

theorem backward_twice_witness:
  "backward 3
     [\<lparr>data = 2, grad = 0, prev = [], backward_fn = Leaf\<rparr>,
      \<lparr>data = 3, grad = 0, prev = [], backward_fn = Leaf\<rparr>,
      \<lparr>data = 6, grad = 0, prev = [0, 1], backward_fn = MulBw 0 1\<rparr>,
      \<lparr>data = 9, grad = 0, prev = [2, 1], backward_fn = AddBw 2 1\<rparr>]
   = Inr
     [\<lparr>data = 2, grad = 3, prev = [], backward_fn = Leaf\<rparr>,
      \<lparr>data = 3, grad = 3, prev = [], backward_fn = Leaf\<rparr>,
      \<lparr>data = 6, grad = 1, prev = [0, 1], backward_fn = MulBw 0 1\<rparr>,
      \<lparr>data = 9, grad = 1, prev = [2, 1], backward_fn = AddBw 2 1\<rparr>]
   \<and> (\<exists>s2. backward 3
     [\<lparr>data = 2, grad = 3, prev = [], backward_fn = Leaf\<rparr>,
      \<lparr>data = 3, grad = 3, prev = [], backward_fn = Leaf\<rparr>,
      \<lparr>data = 6, grad = 1, prev = [0, 1], backward_fn = MulBw 0 1\<rparr>,
      \<lparr>data = 9, grad = 1, prev = [2, 1], backward_fn = AddBw 2 1\<rparr>] = Inr s2
     \<and> (\<forall>v \<in> {0, 1, 2, 3}. grad (s2 ! v) = grad (
     [\<lparr>data = 2, grad = 3, prev = [], backward_fn = Leaf\<rparr>,
      \<lparr>data = 3, grad = 3, prev = [], backward_fn = Leaf\<rparr>,
      \<lparr>data = 6, grad = 1, prev = [0, 1], backward_fn = MulBw 0 1\<rparr>,
      \<lparr>data = 9, grad = 1, prev = [2, 1], backward_fn = AddBw 2 1\<rparr>] ! v)))"
proof -
  let ?s = "[\<lparr>data = 2, grad = 0, prev = [], backward_fn = Leaf\<rparr>,
      \<lparr>data = 3, grad = 0, prev = [], backward_fn = Leaf\<rparr>,
      \<lparr>data = 6, grad = 0, prev = [0, 1], backward_fn = MulBw 0 1\<rparr>,
      \<lparr>data = 9, grad = 0, prev = [2, 1], backward_fn = AddBw 2 1\<rparr>]"
  let ?s1 = "[\<lparr>data = 2, grad = 3, prev = [], backward_fn = Leaf\<rparr>,
      \<lparr>data = 3, grad = 3, prev = [], backward_fn = Leaf\<rparr>,
      \<lparr>data = 6, grad = 1, prev = [0, 1], backward_fn = MulBw 0 1\<rparr>,
      \<lparr>data = 9, grad = 1, prev = [2, 1], backward_fn = AddBw 2 1\<rparr>]"
  have b: "reachable ?s 3 = {0, 1, 2, 3}"
    unfolding build_reachable [symmetric] by (auto simp: build_def)
  have h: "backward 3 ?s = Inr ?s1"
    by (simp add: eval_simps)
  from backward_twice [OF h] h b show ?thesis
    by simp
qed

section \<open>The local backward rules of multiplication and power\<close>

lemma floor_minus_one_real: "\<lfloor>- 1 :: real\<rfloor> = - 1"
  by linarith

lemma DBL_MAX_ge_one: "1 \<le> DBL_MAX"
proof -
  have "(1::real) \<le> 2 - 1 / 2 ^ 52" "(1::real) \<le> 2 ^ 1023"
    by simp_all
  then have "(1::real) * 1 \<le> (2 - 1 / 2 ^ 52) * 2 ^ 1023"
    by (intro mult_mono) simp_all
  then show ?thesis
    by (simp add: DBL_MAX_def)
qed

lemma float_result_small: "\<bar>r\<bar> \<le> 1 \<Longrightarrow> float_result r = Inr r"
  using DBL_MAX_ge_one by (simp add: float_result_def)


lemma py_exp_nonpos: "x \<le> 0 \<Longrightarrow> py_exp x = Inr (exp x)"
  by (simp add: py_exp_def float_result_small)

lemma py_pow_ge_one_minus1: "1 \<le> x \<Longrightarrow> py_pow x (- 1) = Inr (inverse x)"
proof -
  assume x: "1 \<le> x"
  then have "\<bar>inverse x\<bar> \<le> 1"
    by (simp add: inverse_le_1_iff)
  with x show ?thesis
    by (simp add: py_pow_def power_int_minus floor_minus_one_real float_result_small)
qed


lemma mul_closure:
  "mul ord u (Node w) s = (out, s') \<Longrightarrow>
     out = length s \<and> backward_fn (s' ! out) = MulBw u w
       \<and> data (s' ! out) = data (s ! u) * data (s ! w)"
  by (auto simp: mul_def new_Value_def)

text \<open>
  C4, as the code has it. The rule of a product node \<open>out = u * w\<close> adds to each
  operand's gradient the value that the other operand holds when the rule runs, times
  the gradient of \<open>out\<close>. The closure keeps the operand objects, not their values.
  For \<open>out = u * u\<close> both additions go to the gradient of \<open>u\<close>.
\<close>

theorem mul_rule_reads_current_values:
  assumes "backward_fn (s ! out) = MulBw u w" "u < length s" "w < length s"
    and "u \<noteq> out" "w \<noteq> out"
  shows "\<exists>s'. run_backward out s = Inr s'
           \<and> grad (s' ! u) = grad (s ! u) + data (s ! w) * grad (s ! out)
                 + (if u = w then data (s ! u) * grad (s ! out) else 0)
           \<and> grad (s' ! w) = grad (s ! w) + data (s ! u) * grad (s ! out)
                 + (if u = w then data (s ! w) * grad (s ! out) else 0)"
  using assms by (simp add: run_backward_def Let_def add_grad_def nth_list_update)

theorem mul_rule_reads_current_values_witness:
  "backward_fn ([\<lparr>data = 2, grad = 0, prev = [], backward_fn = Leaf\<rparr>,
                 \<lparr>data = 1, grad = 0, prev = [], backward_fn = Leaf\<rparr>,
                 \<lparr>data = 6, grad = 1, prev = [0, 1], backward_fn = MulBw 0 1\<rparr>] ! 2) = MulBw 0 1
   \<and> (\<exists>s'. run_backward 2
               [\<lparr>data = 2, grad = 0, prev = [], backward_fn = Leaf\<rparr>,
                \<lparr>data = 1, grad = 0, prev = [], backward_fn = Leaf\<rparr>,
                \<lparr>data = 6, grad = 1, prev = [0, 1], backward_fn = MulBw 0 1\<rparr>] = Inr s'
             \<and> grad (s' ! 0) = 1 \<and> grad (s' ! 1) = 2)
   \<and> (\<exists>s'. run_backward 1
               [\<lparr>data = 3, grad = 0, prev = [], backward_fn = Leaf\<rparr>,
                \<lparr>data = 9, grad = 1, prev = [0], backward_fn = MulBw 0 0\<rparr>] = Inr s'
             \<and> grad (s' ! 0) = 6)"
  using mul_rule_reads_current_values
    [of "[\<lparr>data = 2, grad = 0, prev = [], backward_fn = Leaf\<rparr>,
          \<lparr>data = 1, grad = 0, prev = [], backward_fn = Leaf\<rparr>,
          \<lparr>data = 6, grad = 1, prev = [0, 1], backward_fn = MulBw 0 1\<rparr>]" 2 0 1]
    mul_rule_reads_current_values
    [of "[\<lparr>data = 3, grad = 0, prev = [], backward_fn = Leaf\<rparr>,
          \<lparr>data = 9, grad = 1, prev = [0], backward_fn = MulBw 0 0\<rparr>]" 1 0 0]
  by simp

text \<open>
  C4 as the specification states it fails. Build \<open>out = a * c\<close> with \<open>a = 2\<close>, \<open>c = 3\<close>,
  run \<open>out.backward()\<close>, let \<open>SGD([c], lr=1.0).step()\<close> move \<open>c\<close> to 1, and run
  \<open>out.backward()\<close> again: the gradient of \<open>a\<close> is 1, the value of \<open>c\<close> now,
  and not 3, its value when \<open>out\<close> was built.
\<close>

theorem mul_rule_stale_counterexample:
  "(let (a, s1) = new_Value remdups 2 [] Leaf [];
        (c, s2) = new_Value remdups 3 [] Leaf s1;
        (out, s3) = mul remdups a (Node c) s2
    in case backward out s3 of
         Inl e \<Rightarrow> False
       | Inr s4 \<Rightarrow>
           (let (opt, s5) = SGD_step (SGD_init [c] 1 0 0) s4
            in case backward out s5 of
                 Inl e \<Rightarrow> False
               | Inr s6 \<Rightarrow>
                   data (s3 ! c) = 3 \<and> data (s5 ! c) = 1 \<and> grad (s6 ! out) = 1
                   \<and> grad (s6 ! a) = 1 \<and> grad (s6 ! a) \<noteq> data (s3 ! c) * grad (s6 ! out)))"
  by (simp add: eval_simps SGD_step_def SGD_init_def)

lemma pow_zero_base_negative_exponent:
  "data (s ! u) = 0 \<Longrightarrow> e < 0 \<Longrightarrow> pow ord u e s = Inl ZeroDivisionError"
  by (simp add: pow_def py_pow_def)

text \<open>
  C6. The rule of a power node with exponent \<open>e\<close> whose base holds 0: when
  \<open>e - 1 < 0\<close> it adds 0 to the gradient of the base, with exponent 2 it adds 0, and
  when \<open>e - 1 \<ge> 0\<close> it adds \<open>e * base ** (e - 1)\<close> times the gradient of the node.
\<close>

theorem pow_rule_zero_base:
  assumes "backward_fn (s ! out) = PowBw u e" "u < length s" "data (s ! u) = 0"
  shows "\<exists>s'. run_backward out s = Inr s'
           \<and> (e - 1 < 0 \<longrightarrow> grad (s' ! u) = grad (s ! u) + 0)
           \<and> (e = 2 \<longrightarrow> grad (s' ! u) = grad (s ! u) + 0)
           \<and> (\<not> e - 1 < 0 \<longrightarrow>
                (\<exists>p. py_pow (data (s ! u)) (e - 1) = Inr p
                   \<and> grad (s' ! u) = grad (s ! u) + e * p * grad (s ! out)))"
  using assms by (auto simp: run_backward_def add_grad_def py_pow_def)

theorem pow_rule_zero_base_witness:
  "backward_fn ([\<lparr>data = 0, grad = 5, prev = [], backward_fn = Leaf\<rparr>,
                 \<lparr>data = 0, grad = 1, prev = [0], backward_fn = PowBw 0 (1 / 2)\<rparr>] ! 1)
     = PowBw 0 (1 / 2)
   \<and> (\<exists>s'. run_backward 1
               [\<lparr>data = 0, grad = 5, prev = [], backward_fn = Leaf\<rparr>,
                \<lparr>data = 0, grad = 1, prev = [0], backward_fn = PowBw 0 (1 / 2)\<rparr>] = Inr s'
             \<and> grad (s' ! 0) = 5)
   \<and> (\<exists>s'. run_backward 1
               [\<lparr>data = 0, grad = 5, prev = [], backward_fn = Leaf\<rparr>,
                \<lparr>data = 0, grad = 1, prev = [0], backward_fn = PowBw 0 2\<rparr>] = Inr s'
             \<and> grad (s' ! 0) = 5)"
  using pow_rule_zero_base
    [of "[\<lparr>data = 0, grad = 5, prev = [], backward_fn = Leaf\<rparr>,
          \<lparr>data = 0, grad = 1, prev = [0], backward_fn = PowBw 0 (1 / 2)\<rparr>]" 1 0 "1 / 2"]
    pow_rule_zero_base
    [of "[\<lparr>data = 0, grad = 5, prev = [], backward_fn = Leaf\<rparr>,
          \<lparr>data = 0, grad = 1, prev = [0], backward_fn = PowBw 0 2\<rparr>]" 1 0 2]
  by auto

section \<open>sigmoid\<close>















section \<open>Adam\<close>

lemma Adam_update_step_count:
  "Adam_update p opt s = Inr (opt', s') \<Longrightarrow> step_count opt' = step_count opt"
  by (auto simp: Adam_update_def Let_def split: sum.splits)

lemma Adam_loop_step_count:
  "Adam_loop ps opt s = Inr (opt', s') \<Longrightarrow> step_count opt' = step_count opt"
proof (induction ps arbitrary: opt s)
  case Nil
  then show ?case by simp
next
  case (Cons p ps)
  then show ?case
    by (auto split: sum.splits dest: Adam_update_step_count)
qed

text \<open>
  C8. A call of \<open>Adam.step\<close> that returns has incremented the step counter by one,
  however many parameters it manages. With the default hyperparameters and one parameter
  of value 1 and gradient 1, the first step leaves the counter at 1 and the value at
  \<open>1 - lr * (m / (1 - beta1 ^ 1)) / (sqrt (v / (1 - beta2 ^ 1)) + eps)\<close> with
  \<open>m = 1/10\<close> and \<open>v = 1/1000\<close>, which is \<open>99900001 / 100000001\<close>.
\<close>

theorem Adam_step_counter_and_value:
  "(Adam_step opt s = Inr (opt', s') \<longrightarrow> step_count opt' = step_count opt + 1)
   \<and> map_sum id (\<lambda>(opt', s'). (step_count opt', data (s' ! 0)))
        (Adam_step (Adam_default [0]) [\<lparr>data = 1, grad = 1, prev = [], backward_fn = Leaf\<rparr>])
     = Inr (1, 1 + - (1 / 10 ^ 3) * ((1 / 10) / (1 - (9 / 10) ^ 1))
                     / (sqrt ((1 / 1000) / (1 - (999 / 1000) ^ 1)) + 1 / 10 ^ 8))
   \<and> (1::real) + - (1 / 10 ^ 3) * ((1 / 10) / (1 - (9 / 10) ^ 1))
                     / (sqrt ((1 / 1000) / (1 - (999 / 1000) ^ 1)) + 1 / 10 ^ 8)
       = 99900001 / 100000001"
proof (intro conjI impI)
  assume "Adam_step opt s = Inr (opt', s')"
  then show "step_count opt' = step_count opt + 1"
    by (auto simp: Adam_step_def dest: Adam_loop_step_count)
next
  show "map_sum id (\<lambda>(opt', s'). (step_count opt', data (s' ! 0)))
        (Adam_step (Adam_default [0]) [\<lparr>data = 1, grad = 1, prev = [], backward_fn = Leaf\<rparr>])
     = Inr (1, 1 + - (1 / 10 ^ 3) * ((1 / 10) / (1 - (9 / 10) ^ 1))
                     / (sqrt ((1 / 1000) / (1 - (999 / 1000) ^ 1)) + 1 / 10 ^ 8))"
    by (simp add: Adam_step_def Adam_default_def Adam_init_def Adam_update_def dict_get_def
       py_pow_def py_div_def py_sqrt_def Let_def float_result_small)
next
  show "(1::real) + - (1 / 10 ^ 3) * ((1 / 10) / (1 - (9 / 10) ^ 1))
                     / (sqrt ((1 / 1000) / (1 - (999 / 1000) ^ 1)) + 1 / 10 ^ 8)
       = 99900001 / 100000001"
    by simp
qed

theorem Adam_step_counter_and_value_witness:
  "\<exists>opt' s'. Adam_step (Adam_default [0]) [\<lparr>data = 1, grad = 1, prev = [], backward_fn = Leaf\<rparr>]
        = Inr (opt', s')
     \<and> step_count opt' = step_count (Adam_default [0]) + 1"
proof -
  let ?s = "[\<lparr>data = 1, grad = 1, prev = [], backward_fn = Leaf\<rparr>]"
  obtain opt' s' where h: "Adam_step (Adam_default [0]) ?s = Inr (opt', s')"
    by (cases "Adam_step (Adam_default [0]) ?s")
      (use Adam_step_counter_and_value [of "Adam_default [0]" ?s] in auto)
  with Adam_step_counter_and_value [of "Adam_default [0]" ?s opt' s'] show ?thesis
    by blast
qed

section \<open>Linear layers and softmax\<close>

lemma new_Parameters_length: "new_Parameters ord ds s = (ps, s') \<Longrightarrow> length ps = length ds"
  by (induction ds arbitrary: s ps s') (auto simp: Let_def split: prod.splits)

lemma init_rows_length:
  "init_rows ord init in_f out_f rnd is s = Inr (rows, s') \<Longrightarrow> length rows = length is"
proof (induction "is" arbitrary: s rows s')
  case Nil
  then show ?case by simp
next
  case (Cons i "is")
  then show ?case
    by (auto split: sum.splits prod.splits)
qed

lemma Linear_init_shape:
  assumes "Linear_init ord in_f out_f bias init rnd s = Inr (L, s')"
  shows "in_features L = in_f" "out_features L = out_f" "length (W L) = nat out_f"
    "case b L of None \<Rightarrow> True | Some bs \<Rightarrow> length bs = nat out_f"
  using assms
  by (auto simp: Linear_init_def Let_def split: sum.splits prod.splits if_splits
      dest!: init_rows_length new_Parameters_length)

lemma Linear_rows_total:
  assumes "\<forall>i\<in>set is. i < length (W L)" "case b L of None \<Rightarrow> True | Some bs \<Rightarrow> \<forall>i\<in>set is. i < length bs"
  shows "\<exists>out s'. Linear_rows ord L x is s = Inr (out, s') \<and> length out = length is"
  using assms
proof (induction "is" arbitrary: s)
  case Nil
  then show ?case by simp
next
  case (Cons i "is")
  obtain z s1 where z: "new_Value ord 0 [] Leaf s = (z, s1)"
    by (cases "new_Value ord 0 [] Leaf s")
  obtain sm s2 where d: "dot_loop ord z (zip (W L ! i) x) s1 = (sm, s2)"
    by (cases "dot_loop ord z (zip (W L ! i) x) s1")
  have w: "list_get (W L) i = Inr (W L ! i)"
    using Cons.prems(1) by (simp add: list_get_def)
  obtain sm' s3 where bias:
    "(case b L of None \<Rightarrow> Inr (sm, s2)
      | Some bs \<Rightarrow> (case list_get bs i of Inl e \<Rightarrow> Inl e | Inr bi \<Rightarrow> Inr (add ord sm (Node bi) s2)))
     = Inr (sm', s3)"
    using Cons.prems(2) by (cases "b L") (auto simp: list_get_def intro: prod.exhaust)
  have "\<forall>i\<in>set is. i < length (W L)" "case b L of None \<Rightarrow> True | Some bs \<Rightarrow> \<forall>i\<in>set is. i < length bs"
    using Cons.prems by (auto split: option.splits)
  from Cons.IH[OF this, of s3] obtain out s4 where
    "Linear_rows ord L x is s3 = Inr (out, s4)" "length out = length is"
    by blast
  with z d w bias show ?case
    by simp
qed

text \<open>
  C9. A layer that \<open>Linear.__init__\<close> has built raises ValueError when it is called
  with an input whose length is not \<open>in_features\<close>, and creates nothing; called with
  an input of that length it returns \<open>out_features\<close> nodes (none when
  \<open>out_features\<close> is negative).
\<close>

theorem Linear_call_lengths:
  assumes "Linear_init ord in_f out_f bias init rnd s0 = Inr (L, s1)"
  shows "(int (length x) \<noteq> in_features L \<longrightarrow> Linear_call ord L x s = Inl ValueError)
       \<and> (int (length x) = in_features L \<longrightarrow>
            (\<exists>out s'. Linear_call ord L x s = Inr (out, s') \<and> length out = nat (out_features L)))"
proof -
  have "\<forall>i\<in>set [0..<nat (out_features L)]. i < length (W L)"
    "case b L of None \<Rightarrow> True | Some bs \<Rightarrow> \<forall>i\<in>set [0..<nat (out_features L)]. i < length bs"
    using Linear_init_shape[OF assms] by (auto split: option.splits)
  from Linear_rows_total[OF this, of ord x s] show ?thesis
    by (auto simp: Linear_call_def)
qed

lemma Linear_init_example:
  "\<exists>L s1. Linear_init remdups 3 2 True Xavier (\<lambda>i j. 1 / 2) [] = Inr (L, s1) \<and> in_features L = 3 
     \<and> out_features L = 2"
  by (simp add: Linear_init_def xavier_uniform_def py_div_def py_sqrt_def new_Value_def Let_def
      upt_rec[of 0] upt_rec[of 1] upt_rec[of 2] upt_rec[of "Suc 0"] uniform_def split: prod.splits)

theorem Linear_call_lengths_witness:
  "\<exists>L s1. Linear_init remdups 3 2 True Xavier (\<lambda>i j. 1 / 2) [] = Inr (L, s1)
     \<and> in_features L = 3
     \<and> Linear_call remdups L [0, 1] s1 = Inl ValueError
     \<and> (\<exists>out s'. Linear_call remdups L [0, 1, 2] s1 = Inr (out, s') \<and> length out = 2)"
proof -
  from Linear_init_example obtain L s1 where
    h: "Linear_init remdups 3 2 True Xavier (\<lambda>i j. 1 / 2) [] = Inr (L, s1)"
    and f: "in_features L = 3" "out_features L = 2"
    by blast
  from Linear_call_lengths [OF h, of "[0, 1]" s1] Linear_call_lengths [OF h, of "[0, 1, 2]" s1] h f
  show ?thesis
    by simp
qed

lemma max_loop_spec:
  "max_loop s m vs \<in> insert m (set vs)
   \<and> data (s ! m) \<le> data (s ! max_loop s m vs)
   \<and> (\<forall>v\<in>set vs. data (s ! v) \<le> data (s ! max_loop s m vs))"
proof (induction vs arbitrary: m)
  case Nil
  then show ?case by simp
next
  case (Cons v vs)
  let ?m = "if data (s ! m) \<ge> data (s ! v) then m else v"
  from Cons.IH[of ?m] have ih: "max_loop s ?m vs \<in> insert ?m (set vs)"
    "data (s ! ?m) \<le> data (s ! max_loop s ?m vs)"
    "\<forall>v\<in>set vs. data (s ! v) \<le> data (s ! max_loop s ?m vs)"
    by blast+
  have "data (s ! m) \<le> data (s ! ?m)" "data (s ! v) \<le> data (s ! ?m)"
    by simp_all
  with ih(2) have "data (s ! m) \<le> data (s ! max_loop s ?m vs)"
    "data (s ! v) \<le> data (s ! max_loop s ?m vs)"
    by linarith+
  with ih(1,3) show ?case
    by (auto split: if_splits)
qed

lemma sub_node:
  assumes "v < length s" "m < length s"
  shows "\<exists>n1 n2. sub ord v (Node m) s = (Suc (length s), s @ [n1, n2])
           \<and> data n2 = data (s ! v) - data (s ! m)"
  using assms by (simp add: sub_def neg_def add_def new_Value_def nth_append)

lemma exps_loop_spec:
  assumes "m < length s" "\<forall>v\<in>set vs. v < length s \<and> data (s ! v) \<le> data (s ! m)"
  shows "\<exists>es s'. exps_loop ord m vs s = Inr (es, s') \<and> (\<exists>ext. s' = s @ ext)
           \<and> length es = length vs
           \<and> (\<forall>e\<in>set es. e < length s' \<and> 0 < data (s' ! e))
           \<and> (m \<in> set vs \<longrightarrow> (\<exists>e\<in>set es. data (s' ! e) = 1))"
  using assms
proof (induction vs arbitrary: s)
  case Nil
  then show ?case by simp
next
  case (Cons v vs)
  from Cons.prems have v: "v < length s" "data (s ! v) \<le> data (s ! m)"
    by simp_all
  from sub_node[OF v(1) Cons.prems(1), of ord] obtain n1 n2 where
    d: "sub ord v (Node m) s = (Suc (length s), s @ [n1, n2])"
    and n2: "data n2 = data (s ! v) - data (s ! m)"
    by blast
  let ?s1 = "s @ [n1, n2]"
  let ?n3 = "\<lparr>data = exp (data n2), grad = 0, prev = ord [Suc (length s)],
              backward_fn = ExpBw (Suc (length s)) (exp (data n2))\<rparr>"
  let ?s2 = "?s1 @ [?n3]"
  have "data (?s1 ! Suc (length s)) = data n2"
    by (simp add: nth_append)
  moreover have "data n2 \<le> 0"
    using n2 v(2) by simp
  ultimately have e: "exp_v ord (Suc (length s)) ?s1 = Inr (length ?s1, ?s2)"
    by (simp add: exp_v_def py_exp_nonpos new_Value_def)
  have "m < length ?s2" "\<forall>v\<in>set vs. v < length ?s2 \<and> data (?s2 ! v) \<le> data (?s2 ! m)"
    using Cons.prems by (auto simp: nth_append)
  from Cons.IH[OF this] obtain es s' ext where ih:
    "exps_loop ord m vs ?s2 = Inr (es, s')" "s' = ?s2 @ ext" "length es = length vs"
    "\<forall>e\<in>set es. e < length s' \<and> 0 < data (s' ! e)"
    "m \<in> set vs \<longrightarrow> (\<exists>e\<in>set es. data (s' ! e) = 1)"
    by blast
  have r: "exps_loop ord m (v # vs) s = Inr (length ?s1 # es, s')"
    using d e ih(1) by simp
  have s': "s' = s @ ([n1, n2, ?n3] @ ext)"
    using ih(2) by simp
  have n3: "length ?s1 < length s'" "s' ! length ?s1 = ?n3"
    using ih(2) by (simp_all add: nth_append)
  have "0 < data (s' ! length ?s1)"
    using n3(2) by simp
  moreover have "data (s' ! length ?s1) = 1" if "v = m"
    using n3(2) n2 that by simp
  ultimately show ?case
    using r s' n3(1) ih(3,4,5) by (intro exI[of _ "length ?s1 # es"] exI[of _ s']) auto
qed

lemma tensor_sum_loop_spec:
  "tensor_sum_loop ord acc vs s = (r, s') \<Longrightarrow> acc < length s \<Longrightarrow> 0 \<le> data (s ! acc) \<Longrightarrow>
     \<forall>v\<in>set vs. v < length s \<and> 0 < data (s ! v) \<Longrightarrow>
     (\<exists>ext. s' = s @ ext) \<and> r < length s' \<and> data (s ! acc) \<le> data (s' ! r)
       \<and> (\<forall>v\<in>set vs. data (s ! v) \<le> data (s' ! r))"
proof (induction vs arbitrary: acc s)
  case Nil
  then show ?case by simp
next
  case (Cons v vs)
  let ?n = "\<lparr>data = data (s ! acc) + data (s ! v), grad = 0, prev = ord [acc, v],
             backward_fn = AddBw acc v\<rparr>"
  let ?s1 = "s @ [?n]"
  have a: "add ord acc (Node v) s = (length s, ?s1)"
    by (simp add: add_def new_Value_def)
  with Cons.prems(1) have r: "tensor_sum_loop ord (length s) vs ?s1 = (r, s')"
    by simp
  have n: "data (?s1 ! length s) = data (s ! acc) + data (s ! v)"
    by simp
  have "length s < length ?s1" "0 \<le> data (?s1 ! length s)"
    using Cons.prems by (simp_all add: less_imp_le)
  moreover have vs: "\<forall>u\<in>set vs. u < length ?s1 \<and> 0 < data (?s1 ! u)"
    using Cons.prems(4) by (auto simp: nth_append)
  ultimately have ih: "\<exists>ext. s' = ?s1 @ ext" "r < length s'"
    "data (?s1 ! length s) \<le> data (s' ! r)" "\<forall>u\<in>set vs. data (?s1 ! u) \<le> data (s' ! r)"
    using Cons.IH[OF r] by blast+
  have same: "\<forall>u\<in>set vs. data (?s1 ! u) = data (s ! u)"
    using Cons.prems(4) by (auto simp: nth_append)
  have "0 \<le> data (s ! acc)" "0 < data (s ! v)"
    using Cons.prems by simp_all
  with ih(3) n have "data (s ! acc) \<le> data (s' ! r)" "data (s ! v) \<le> data (s' ! r)"
    by linarith+
  moreover from ih(1) have "\<exists>ext. s' = s @ ext"
    by auto
  ultimately show ?case
    using ih(2,4) same by auto
qed

lemma tensor_sum_spec:
  assumes "tensor_sum ord vs s = (r, s')" "\<forall>v\<in>set vs. v < length s \<and> 0 < data (s ! v)"
  shows "r < length s' \<and> (\<forall>v\<in>set vs. data (s ! v) \<le> data (s' ! r))"
proof -
  let ?n = "\<lparr>data = 0, grad = 0, prev = ord [], backward_fn = Leaf\<rparr>"
  from assms(1) have r: "tensor_sum_loop ord (length s) vs (s @ [?n]) = (r, s')"
    by (simp add: tensor_sum_def new_Value_def)
  have vs: "\<forall>v\<in>set vs. v < length (s @ [?n]) \<and> 0 < data ((s @ [?n]) ! v)"
    using assms(2) by (auto simp: nth_append)
  have same: "\<forall>v\<in>set vs. data ((s @ [?n]) ! v) = data (s ! v)"
    using assms(2) by (auto simp: nth_append)
  from tensor_sum_loop_spec[OF r _ _ vs] same show ?thesis
    by simp
qed

lemma probs_loop_total:
  "d < length s \<Longrightarrow> 1 \<le> data (s ! d) \<Longrightarrow>
     \<exists>ps s'. probs_loop ord d es s = Inr (ps, s') \<and> length ps = length es"
proof (induction es arbitrary: s)
  case Nil
  then show ?case by simp
next
  case (Cons e es)
  let ?pn = "\<lparr>data = inverse (data (s ! d)), grad = 0, prev = ord [d], backward_fn = PowBw d (- 1)\<rparr>"
  have p: "pow ord d (- 1) s = Inr (length s, s @ [?pn])"
    using Cons.prems by (simp add: pow_def new_Value_def py_pow_ge_one_minus1)
  obtain mn where t: "truediv ord e (Node d) s = Inr (Suc (length s), s @ [?pn] @ [mn])"
    by (simp add: truediv_def p mul_def new_Value_def)
  from Cons.prems have "d < length (s @ [?pn] @ [mn])" "1 \<le> data ((s @ [?pn] @ [mn]) ! d)"
    by (simp_all add: nth_append)
  from Cons.IH[OF this] obtain ps s' where
    "probs_loop ord d es (s @ [?pn] @ [mn]) = Inr (ps, s')" "length ps = length es"
    by blast
  with t show ?case
    by simp
qed

lemma stable_softmax_total:
  assumes "logits \<noteq> []" "\<forall>v\<in>set logits. v < length s"
  shows "\<exists>ps s'. stable_softmax ord logits s = Inr (ps, s') \<and> length ps = length logits"
proof -
  from assms obtain v0 rest where l: "logits = v0 # rest"
    by (cases logits) auto
  let ?m = "max_loop s v0 rest"
  from max_loop_spec[of s v0 rest] l have m: "?m \<in> set logits"
    "\<forall>v\<in>set logits. data (s ! v) \<le> data (s ! ?m)"
    by auto
  with assms(2) have "?m < length s" "\<forall>v\<in>set logits. v < length s \<and> data (s ! v) \<le> data (s ! ?m)"
    by auto
  from exps_loop_spec[OF this, of ord] m(1) obtain exps s1 where e:
    "exps_loop ord ?m logits s = Inr (exps, s1)" "length exps = length logits"
    "\<forall>e\<in>set exps. e < length s1 \<and> 0 < data (s1 ! e)" "\<exists>e\<in>set exps. data (s1 ! e) = 1"
    by blast
  obtain denom s2 where t: "tensor_sum ord exps s1 = (denom, s2)"
    by (cases "tensor_sum ord exps s1")
  from tensor_sum_spec[OF t e(3)] e(4) have "denom < length s2" "1 \<le> data (s2 ! denom)"
    by auto
  from probs_loop_total[OF this, of ord exps] l e(1,2) t show ?thesis
    by (simp add: stable_softmax_def)
qed

text \<open>
  C10. \<open>stable_softmax\<close> of an empty list returns the empty list and leaves the store
  as it is; of a non-empty list of nodes of the store it returns a list of the same
  length.
\<close>

theorem stable_softmax_lengths:
  "stable_softmax ord [] s = Inr ([], s)
   \<and> (logits \<noteq> [] \<and> (\<forall>v\<in>set logits. v < length s) \<longrightarrow>
        (\<exists>ps s'. stable_softmax ord logits s = Inr (ps, s') \<and> length ps = length logits))"
  using stable_softmax_total by (simp add: stable_softmax_def)

theorem stable_softmax_lengths_witness:
  "stable_softmax remdups [] [\<lparr>data = 0, grad = 0, prev = [], backward_fn = Leaf\<rparr>]
     = Inr ([], [\<lparr>data = 0, grad = 0, prev = [], backward_fn = Leaf\<rparr>])
   \<and> (\<exists>ps s'. stable_softmax remdups [0] [\<lparr>data = 0, grad = 0, prev = [], backward_fn = Leaf\<rparr>]
          = Inr (ps, s') \<and> length ps = 1)"
  using stable_softmax_lengths
    [of remdups "[\<lparr>data = 0, grad = 0, prev = [], backward_fn = Leaf\<rparr>]" "[0]"]
  by simp

section \<open>Losses and the lengths of their arguments\<close>

lemma MSELoss_length_check:
  "length preds \<noteq> length targets \<Longrightarrow> MSELoss ord preds targets s = Inl AssertionError"
  by (simp add: MSELoss_def)

text \<open>
  C5. On two predictions and one target \<open>MSELoss\<close> fails its assertion, and
  \<open>CrossEntropyLoss\<close> returns a loss, \<open>ln 2\<close> for two equal logits, computed from
  the first logit's probability only.
\<close>

theorem CrossEntropyLoss_ignores_length:
   "MSELoss remdups [0, 1] [1] [\<lparr>data = 0, grad = 0, prev = [], backward_fn = Leaf\<rparr>,
        \<lparr>data = 0, grad = 0, prev = [], backward_fn = Leaf\<rparr>] = Inl AssertionError
   \<and> map_sum id (\<lambda>(l, s'). data (s' ! l))
       (CrossEntropyLoss remdups [0, 1] [1]
          [\<lparr>data = 0, grad = 0, prev = [], backward_fn = Leaf\<rparr>,
           \<lparr>data = 0, grad = 0, prev = [], backward_fn = Leaf\<rparr>]) = Inr (ln 2)"
proof
  show "MSELoss remdups [0, 1] [1] [\<lparr>data = 0, grad = 0, prev = [], backward_fn = Leaf\<rparr>,
        \<lparr>data = 0, grad = 0, prev = [], backward_fn = Leaf\<rparr>] = Inl AssertionError"
    by (simp add: MSELoss_def)
next
  show "map_sum id (\<lambda>(l, s'). data (s' ! l))
       (CrossEntropyLoss remdups [0, 1] [1]
          [\<lparr>data = 0, grad = 0, prev = [], backward_fn = Leaf\<rparr>,
           \<lparr>data = 0, grad = 0, prev = [], backward_fn = Leaf\<rparr>]) = Inr (ln 2)"
    by (simp add: CrossEntropyLoss_def stable_softmax_def sub_def neg_def add_def exp_v_def
      new_Value_def tensor_sum_def truediv_def pow_def mul_def py_pow_def log_v_def EPS_def
      tensor_mean_def Let_def nth_append power_int_minus ln_div floor_minus_one_real ln_inverse
      py_exp_nonpos float_result_small)
qed

end
